theory Spec2Isabelle
  imports Complex_Main "HOL-Library.Sublist"
begin

section \<open>Cost/accuracy frontier (pareto\_analysis.py)\<close>

text \<open>
  A run point is the dictionary built by \<open>load_log\<close>. Its numeric fields are
  Python floats; the dominance test only compares them, so they are modelled as
  real numbers (finite floats are ordered as the numbers they denote).
\<close>

record run_point =
  model :: string
  model_base :: string
  hours :: real
  gpu_hours :: real
  accuracy :: real
  params :: real
  num_gpus :: real
  family :: string

text \<open>
  The inner loop of \<open>is_pareto_optimal\<close>:
  \<^verbatim>\<open>
  for j, m2 in enumerate(models):
      if i != j:
          if m2['gpu_hours'] < m1['gpu_hours'] and m2['accuracy'] > m1['accuracy']:
              dominated = True
              break
  \<close>
  The result is the final value of \<open>dominated\<close>; \<open>j\<close> is the index that
  \<open>enumerate\<close> has reached.
\<close>

fun dominated_scan :: "nat \<Rightarrow> run_point \<Rightarrow> nat \<Rightarrow> run_point list \<Rightarrow> bool" where
  "dominated_scan i m1 j [] = False"
| "dominated_scan i m1 j (m2 # rest) =
     (if i \<noteq> j \<and> gpu_hours m2 < gpu_hours m1 \<and> accuracy m2 > accuracy m1
      then True
      else dominated_scan i m1 (Suc j) rest)"

text \<open>
  The outer loop: \<open>for i, m1 in enumerate(models): ... pareto.append(not dominated)\<close>.
  The first argument is the whole list, the last the part still to visit.
\<close>

fun pareto_scan :: "run_point list \<Rightarrow> nat \<Rightarrow> run_point list \<Rightarrow> bool list" where
  "pareto_scan models i [] = []"
| "pareto_scan models i (m1 # rest) =
     (\<not> dominated_scan i m1 0 models) # pareto_scan models (Suc i) rest"

definition is_pareto_optimal :: "run_point list \<Rightarrow> bool list" where
  "is_pareto_optimal models = pareto_scan models 0 models"

text \<open>Deleting the entry at one position of a list (of points, or of flags).\<close>

definition remove_at :: "nat \<Rightarrow> 'a list \<Rightarrow> 'a list" where
  "remove_at k xs = take k xs @ drop (Suc k) xs"

text \<open>The dominance relation the inner loop tests: \<open>y\<close> dominates \<open>x\<close>.\<close>

definition dominates :: "run_point \<Rightarrow> run_point \<Rightarrow> bool" where
  "dominates y x \<longleftrightarrow> gpu_hours y < gpu_hours x \<and> accuracy y > accuracy x"

text \<open>A small group used to run the frontier on concrete data.\<close>

definition point :: "real \<Rightarrow> real \<Rightarrow> run_point" where
  "point g acc = \<lparr>model = ''m-en'', model_base = ''m'', hours = g, gpu_hours = g,
                  accuracy = acc, params = 0, num_gpus = 1, family = ''other''\<rparr>"

definition example_runs :: "run_point list" where
  "example_runs = [point 1 50, point 2 40, point 3 30, point 2 80]"

section \<open>Python strings\<close>

text \<open>
  A Python \<open>str\<close> whose characters the program inspects is a list of Unicode code
  points (\<open>pystr\<close>), each the integer that \<open>ord\<close> gives; \<open>lit\<close> turns an ASCII
  literal into one. Names and messages that the program only builds or copies are HOL
  strings.

  \<open>str.strip()\<close> removes from both ends the code points for which \<open>str.isspace\<close>
  holds. These are U+0009 to U+000D, U+001C to U+0020, U+0085, U+00A0, U+1680, U+2000
  to U+200A, U+2028, U+2029, U+202F, U+205F and U+3000.

  \<open>str.upper()\<close> is modelled on the ASCII letters and leaves every other code point
  as it is. The program only compares its result with \<open>'T'\<close>, and \<open>'t'\<close> and
  \<open>'T'\<close> are the only texts with that upper case.
\<close>

type_synonym pystr = "int list"

definition lit :: "string \<Rightarrow> pystr" where
  "lit s = map of_char s"

definition is_space :: "int \<Rightarrow> bool" where
  "is_space n \<longleftrightarrow>
     (0x9 \<le> n \<and> n \<le> 0xD) \<or> (0x1C \<le> n \<and> n \<le> 0x20) \<or> n = 0x85 \<or> n = 0xA0 \<or> n = 0x1680
     \<or> (0x2000 \<le> n \<and> n \<le> 0x200A) \<or> n = 0x2028 \<or> n = 0x2029 \<or> n = 0x202F \<or> n = 0x205F
     \<or> n = 0x3000"

definition py_strip :: "pystr \<Rightarrow> pystr" where
  "py_strip s = rev (dropWhile is_space (rev (dropWhile is_space s)))"

definition upper_char :: "int \<Rightarrow> int" where
  "upper_char n = (if 97 \<le> n \<and> n \<le> 122 then n - 32 else n)"

definition py_upper :: "pystr \<Rightarrow> pystr" where
  "py_upper s = map upper_char s"

definition digit_char :: "nat \<Rightarrow> char" where
  "digit_char k = char_of (48 + k)"

text \<open>The decimal text of a length, as an f-string prints it.\<close>

fun show_nat :: "nat \<Rightarrow> string" where
  "show_nat n = (if n < 10 then [digit_char n] else show_nat (n div 10) @ [digit_char (n mod 10)])"

declare show_nat.simps [simp del]

datatype py_error = ValueError string | OverflowError string

section \<open>Paired-outcome comparator (calculate\_mcnemar.py, calculate\_b\_c.py)\<close>

text \<open>
  A graded item is a JSON object; the comparator reads two of its keys and either may
  be absent. \<open>question_num\<close> is the integer the runner wrote and \<open>grade\<close> the
  text the grader wrote (\<open>str\<close> of a string is the string).
\<close>

record graded_item =
  item_question_num :: "int option"
  item_grade :: "pystr option"

text \<open>\<^verbatim>\<open>str(q.get('grade', '')).strip().upper() == 'T'\<close>\<close>

definition is_match :: "graded_item \<Rightarrow> bool" where
  "is_match q =
     (py_upper (py_strip (case item_grade q of None \<Rightarrow> [] | Some g \<Rightarrow> g)) = lit ''T'')"

text \<open>
  The dictionary both variants return. The keys \<open>a\<close>, \<open>b\<close>, \<open>c\<close>, \<open>d\<close> carry the
  prefix \<open>cell_\<close> here, so that they do not capture the variables of the theorems.
\<close>

record mcnemar_values =
  model1 :: string
  model2 :: string
  cell_a :: int
  cell_b :: int
  cell_c :: int
  cell_d :: int
  total :: int

type_synonym cells = "int \<times> int \<times> int \<times> int"

text \<open>The four-way update of the counters, shared by both variants.\<close>

definition count_pair :: "bool \<Rightarrow> bool \<Rightarrow> cells \<Rightarrow> cells" where
  "count_pair m1 m2 t =
     (case t of (a, b, c, d) \<Rightarrow>
        if m1 \<and> m2 then (a + 1, b, c, d)
        else if m1 \<and> \<not> m2 then (a, b + 1, c, d)
        else if \<not> m1 \<and> m2 then (a, b, c + 1, d)
        else (a, b, c, d + 1))"

text \<open>
  The loop of calculate\_mcnemar.py over \<open>zip(results1, results2)\<close>. The third
  argument is what has been printed so far. The branch for two present and different
  \<open>question_num\<close> values is \<open>pass\<close> in the source: it prints nothing.
\<close>

fun pair_loop :: "(graded_item \<times> graded_item) list \<Rightarrow> cells \<Rightarrow> string list \<Rightarrow> cells \<times> string list" where
  "pair_loop [] t out = (t, out)"
| "pair_loop ((q1, q2) # rest) t out =
     (let out' =
        (if item_question_num q1 \<noteq> None \<and> item_question_num q2 \<noteq> None
         then (if item_question_num q1 \<noteq> item_question_num q2 then out else out)
         else out);
          m1 = is_match q1;
          m2 = is_match q2
      in pair_loop rest (count_pair m1 m2 t) out')"

text \<open>
  \<open>calculate_mcnemar_values\<close> of calculate\_mcnemar.py, after the two files have been
  loaded: the arguments are the loaded lists with their model names, the result is the
  returned dictionary and the lines printed.
\<close>

definition calculate_mcnemar_values ::
  "string \<Rightarrow> graded_item list \<Rightarrow> string \<Rightarrow> graded_item list \<Rightarrow> mcnemar_values \<times> string list" where
  "calculate_mcnemar_values model1_name results1 model2_name results2 =
     (let (r1, r2, out) =
        (if length results1 \<noteq> length results2
         then (let min_len = min (length results1) (length results2)
               in (take min_len results1, take min_len results2,
                   [''warning: result count mismatch: '' @ show_nat (length results1)
                      @ '' vs '' @ show_nat (length results2)]))
         else (results1, results2, []))
      in case pair_loop (zip r1 r2) (0, 0, 0, 0) out of
           ((a, b, c, d), out') \<Rightarrow>
             (\<lparr>model1 = model1_name, model2 = model2_name,
               cell_a = a, cell_b = b, cell_c = c, cell_d = d, total = a + b + c + d\<rparr>, out'))"

text \<open>The loop of calculate\_b\_c.py: a differing \<open>question_num\<close> raises.\<close>

fun strict_pair_loop :: "(graded_item \<times> graded_item) list \<Rightarrow> cells \<Rightarrow> py_error + cells" where
  "strict_pair_loop [] t = Inr t"
| "strict_pair_loop ((q1, q2) # rest) t =
     (if item_question_num q1 \<noteq> item_question_num q2
      then Inl (ValueError ''question_num mismatch; inputs are not aligned'')
      else strict_pair_loop rest (count_pair (is_match q1) (is_match q2) t))"

text \<open>
  \<open>calculate_mcnemar_values\<close> of calculate\_b\_c.py (the minimal variant), after
  loading; the model names are the stems of the two paths.
\<close>

definition strict_calculate_mcnemar_values ::
  "string \<Rightarrow> graded_item list \<Rightarrow> string \<Rightarrow> graded_item list \<Rightarrow> py_error + mcnemar_values" where
  "strict_calculate_mcnemar_values stem1 results1 stem2 results2 =
     (if length results1 \<noteq> length results2
      then Inl (ValueError (''result length mismatch: '' @ show_nat (length results1)
                  @ '' vs '' @ show_nat (length results2)))
      else case strict_pair_loop (zip results1 results2) (0, 0, 0, 0) of
             Inl err \<Rightarrow> Inl err
           | Inr (a, b, c, d) \<Rightarrow>
               Inr \<lparr>model1 = stem1, model2 = stem2,
                    cell_a = a, cell_b = b, cell_c = c, cell_d = d, total = a + b + c + d\<rparr>)"

text \<open>
  \<open>calculate_mcnemar_statistic\<close>, the same in both files. Python's \<open>/\<close> on two
  integers is the true quotient (rounded to a float); the model keeps the exact value.
\<close>

definition calculate_mcnemar_statistic :: "int \<Rightarrow> int \<Rightarrow> real" where
  "calculate_mcnemar_statistic b c =
     (if b + c = 0 then 0 else of_int ((\<bar>b - c\<bar> - 1) ^ 2) / of_int (b + c))"

text \<open>
  The decision of \<open>main\<close>, the same in both files. \<open>cdf\<close> stands for scipy's
  \<open>chi2.cdf(x, df=1)\<close>, which is not code of this repository.
\<close>

datatype verdict = Significant string | Not_significant

definition p_value_of :: "(real \<Rightarrow> real) \<Rightarrow> real \<Rightarrow> real" where
  "p_value_of cdf chi_sq = 1 - cdf chi_sq"

definition main_report :: "(real \<Rightarrow> real) \<Rightarrow> mcnemar_values \<Rightarrow> real \<times> real \<times> verdict" where
  "main_report cdf results =
     (let chi_sq = calculate_mcnemar_statistic (cell_b results) (cell_c results);
          p_value = p_value_of cdf chi_sq
      in (chi_sq, p_value,
          if p_value < 0.05
          then Significant (if cell_b results > cell_c results then model1 results else model2 results)
          else Not_significant))"

text \<open>
  Names for what the theorems speak about: the sum and the signs of the four counters,
  the counting of the loop alone, the dictionary built from the counters, and graded
  items to run the comparator on.
\<close>

definition cells_sum :: "cells \<Rightarrow> int" where
  "cells_sum t = (case t of (a, b, c, d) \<Rightarrow> a + b + c + d)"

definition cells_nonneg :: "cells \<Rightarrow> bool" where
  "cells_nonneg t = (case t of (a, b, c, d) \<Rightarrow> 0 \<le> a \<and> 0 \<le> b \<and> 0 \<le> c \<and> 0 \<le> d)"

definition zero_table :: "string \<Rightarrow> string \<Rightarrow> mcnemar_values" where
  "zero_table n1 n2 = \<lparr>model1 = n1, model2 = n2, cell_a = 0, cell_b = 0, cell_c = 0, cell_d = 0, total = 0\<rparr>"

definition tally :: "(graded_item \<times> graded_item) list \<Rightarrow> cells \<Rightarrow> cells" where
  "tally ps t = fold (\<lambda>(q1, q2). count_pair (is_match q1) (is_match q2)) ps t"

definition table :: "string \<Rightarrow> string \<Rightarrow> cells \<Rightarrow> mcnemar_values" where
  "table n1 n2 t = \<lparr>model1 = n1, model2 = n2, cell_a = fst t, cell_b = fst (snd t),
       cell_c = fst (snd (snd t)), cell_d = snd (snd (snd t)), total = cells_sum t\<rparr>"

definition graded :: "int \<Rightarrow> string \<Rightarrow> graded_item" where
  "graded n g = \<lparr>item_question_num = Some n, item_grade = Some (lit g)\<rparr>"

definition counts_ok :: "mcnemar_values \<Rightarrow> nat \<Rightarrow> nat \<Rightarrow> bool" where
  "counts_ok v len1 len2 \<longleftrightarrow>
     cell_a v + cell_b v + cell_c v + cell_d v = int (min len1 len2) \<and>
     0 \<le> cell_a v \<and> 0 \<le> cell_b v \<and> 0 \<le> cell_c v \<and> 0 \<le> cell_d v"

section \<open>Evaluation runner (evaluate.py)\<close>

subsection \<open>The reasoning-strip rule\<close>

text \<open>
  \<^verbatim>\<open>THINK_REGEX = re.compile(r"<think>.*</think>\n?", flags=re.DOTALL)\<close>

  \<open>match_tail\<close> matches \<^verbatim>\<open>.*</think>\n?\<close> at the start of a text and returns what
  is left after the match. The star is greedy and, under \<open>DOTALL\<close>, the dot takes every
  character: the engine first lets the star take one more character and falls back to
  the end marker at the present position only when no longer match exists. The optional
  line feed is greedy too.
\<close>

definition think_start :: pystr where
  "think_start = lit ''<think>''"

definition think_end :: pystr where
  "think_end = lit ''</think>''"

definition skip_newline :: "pystr \<Rightarrow> pystr" where
  "skip_newline s = (case s of [] \<Rightarrow> [] | ch # rest \<Rightarrow> if ch = 0x0A then rest else ch # rest)"

fun match_tail :: "pystr \<Rightarrow> pystr option" where
  "match_tail [] = None"
| "match_tail (ch # rest) =
     (case match_tail rest of
        Some left \<Rightarrow> Some left
      | None \<Rightarrow>
          if prefix think_end (ch # rest)
          then Some (skip_newline (drop (length think_end) (ch # rest)))
          else None)"

text \<open>The whole pattern at the start of a text.\<close>

definition think_match :: "pystr \<Rightarrow> pystr option" where
  "think_match s =
     (if prefix think_start s then match_tail (drop (length think_start) s) else None)"

lemma length_skip_newline: "length (skip_newline s) \<le> length s"
  by (cases s) (simp_all add: skip_newline_def)

lemma length_think_end: "length think_end = 8"
  by (simp add: think_end_def lit_def)

lemma length_think_start: "length think_start = 7"
  by (simp add: think_start_def lit_def)

lemma match_tail_shorter: "match_tail s = Some left \<Longrightarrow> length left < length s"
proof (induction s)
  case Nil
  then show ?case by simp
next
  case (Cons ch rest)
  show ?case
  proof (cases "match_tail rest")
    case (Some l)
    with Cons show ?thesis by simp
  next
    case None
    with Cons.prems have "left = skip_newline (drop (length think_end) (ch # rest))"
      by (simp split: if_splits)
    moreover have "length (skip_newline (drop (length think_end) (ch # rest)))
                     \<le> length (drop (length think_end) (ch # rest))"
      by (rule length_skip_newline)
    moreover have "length (drop (length think_end) (ch # rest)) < length (ch # rest)"
      by (simp add: length_think_end)
    ultimately show ?thesis by simp
  qed
qed

lemma think_match_shorter: "think_match s = Some left \<Longrightarrow> length left < length s"
proof -
  assume "think_match s = Some left"
  then have "match_tail (drop (length think_start) s) = Some left"
    by (simp add: think_match_def split: if_splits)
  then have "length left < length (drop (length think_start) s)"
    by (rule match_tail_shorter)
  then show ?thesis by simp
qed

text \<open>
  \<^verbatim>\<open>re.sub(THINK_REGEX, "", text)\<close>: scan from the left; where the pattern matches,
  drop the match and go on behind it; elsewhere keep the character and move on by one.
  (The pattern never matches the empty text.)
\<close>

function re_sub_think :: "pystr \<Rightarrow> pystr" where
  "re_sub_think [] = []"
| "re_sub_think (ch # rest) =
     (case think_match (ch # rest) of
        Some left \<Rightarrow> re_sub_think left
      | None \<Rightarrow> ch # re_sub_think rest)"
  by pat_completeness auto
termination
  by (relation "measure length") (auto dest: think_match_shorter)

text \<open>Lines 126 to 129: what is recorded for a response \<open>ans\<close> of the backend.\<close>

definition clean_answer :: "bool \<Rightarrow> pystr \<Rightarrow> pystr" where
  "clean_answer strip ans = (if strip then py_strip (re_sub_think ans) else py_strip ans)"

subsection \<open>The retry loop and the run\<close>

text \<open>
  The fields of \<open>EvalConfig\<close> that \<open>run_eval\<close> reads in its loop, and the model
  and language it reports.
\<close>

record eval_config =
  cfg_model :: string
  lang :: string
  num_q :: int
  max_retries :: int
  retry_sleep_s :: real
  strip_think :: bool

text \<open>An entry of \<open>qa_pairs\<close>: both keys are read with \<open>pair.get(key, "")\<close>.\<close>

record qa_pair =
  pair_question :: "pystr option"
  pair_answer :: "pystr option"

record answer_record =
  question_num :: nat
  question :: pystr
  model_ans :: pystr
  correct_ans :: pystr

text \<open>
  The backend is outside the repository. \<open>client.chat\<close> is a function of a backend
  state of any type \<open>'s\<close> and of the question (model and system prompt are fixed for the
  run); it returns the new state and either the content of the reply or the exception it
  raised, given by its text \<open>str(exc)\<close>. The exceptions are those that
  \<open>except Exception\<close> catches.
\<close>

datatype backend_exception = BackendException pystr

fun exc_text :: "backend_exception \<Rightarrow> pystr" where
  "exc_text (BackendException msg) = msg"

type_synonym 's backend = "'s \<Rightarrow> pystr \<Rightarrow> (backend_exception + pystr) \<times> 's"

text \<open>
  \<open>time.sleep\<close> is not code of the repository either: the runner takes it as a
  function \<open>sleep\<close> from the delay to what the call does, return or raise.

  \<open>time_sleep\<close> is that function for CPython 3.11 on a finite delay. The delay is
  converted to nanoseconds in a signed 64-bit integer, which fails outside that range,
  and a negative delay is refused. (The interpreter rounds the product as a float, so
  within one part in \<open>10\<^sup>1\<^sup>5\<close> of the limit, about \<open>9.22 \<times> 10\<^sup>9\<close> seconds, the
  rounding decides.)
\<close>

type_synonym sleeper = "real \<Rightarrow> py_error + unit"

definition time_sleep :: sleeper where
  "time_sleep secs =
     (if secs * 10 ^ 9 < - (2 ^ 63) \<or> 2 ^ 63 \<le> secs * 10 ^ 9
      then Inl (OverflowError ''timestamp out of range for platform time_t'')
      else if secs < 0 then Inl (ValueError ''sleep length must be non-negative'')
      else Inr ())"

text \<open>\<^verbatim>\<open>f"ERROR: {last_exc}" if last_exc else "ERROR"\<close>\<close>

definition error_answer :: "backend_exception option \<Rightarrow> pystr" where
  "error_answer last_exc =
     (case last_exc of Some exc \<Rightarrow> lit ''ERROR: '' @ exc_text exc | None \<Rightarrow> lit ''ERROR'')"

text \<open>\<^verbatim>\<open>str(pair.get(key, ""))\<close> for a key that holds text or is absent.\<close>

definition get_text :: "pystr option \<Rightarrow> pystr" where
  "get_text field = (case field of None \<Rightarrow> [] | Some t \<Rightarrow> t)"

text \<open>
  The inner loop \<^verbatim>\<open>for attempt in range(1, config.max_retries + 1)\<close>, over the
  attempts still to make. The empty list is the loop's \<open>else\<close> branch. \<open>Inl\<close> is an
  exception that leaves \<open>run_eval\<close>: the handler calls \<open>time.sleep\<close> unprotected.
\<close>

fun attempt_loop ::
  "eval_config \<Rightarrow> sleeper \<Rightarrow> 's backend \<Rightarrow> 's \<Rightarrow> pystr \<Rightarrow> int list \<Rightarrow> backend_exception option
     \<Rightarrow> py_error + (pystr \<times> 's)" where
  "attempt_loop cfg sleep chat st q [] last_exc =
     Inr (error_answer last_exc, st)"
| "attempt_loop cfg sleep chat st q (attempt # later) last_exc =
     (case chat st q of
        (Inr content, st') \<Rightarrow> Inr (clean_answer (strip_think cfg) content, st')
      | (Inl exc, st') \<Rightarrow>
          if attempt < max_retries cfg
          then (case sleep (retry_sleep_s cfg) of
                  Inl err \<Rightarrow> Inl err
                | Inr _ \<Rightarrow> attempt_loop cfg sleep chat st' q later (Some exc))
          else attempt_loop cfg sleep chat st' q later (Some exc))"

text \<open>
  The outer loop \<^verbatim>\<open>for idx, pair in enumerate(pairs)\<close>; \<open>acc\<close> is \<open>qa_results\<close>.
\<close>

fun eval_loop ::
  "eval_config \<Rightarrow> sleeper \<Rightarrow> 's backend \<Rightarrow> 's \<Rightarrow> nat \<Rightarrow> qa_pair list \<Rightarrow> answer_record list
     \<Rightarrow> py_error + (answer_record list \<times> 's)" where
  "eval_loop cfg sleep chat st idx [] acc = Inr (acc, st)"
| "eval_loop cfg sleep chat st idx (pair # rest) acc =
     (let q = get_text (pair_question pair);
          ref_answer = get_text (pair_answer pair)
      in case attempt_loop cfg sleep chat st q [1 .. max_retries cfg] None of
           Inl err \<Rightarrow> Inl err
         | Inr (ans, st') \<Rightarrow>
             eval_loop cfg sleep chat st' (Suc idx) rest
               (acc @ [\<lparr>question_num = idx, question = q, model_ans = ans,
                         correct_ans = ref_answer\<rparr>]))"

text \<open>\<open>run_eval\<close> on the loaded pairs; the result is \<open>qa_results\<close> and the backend's last state.\<close>

definition run_eval ::
  "eval_config \<Rightarrow> sleeper \<Rightarrow> 's backend \<Rightarrow> 's \<Rightarrow> qa_pair list
     \<Rightarrow> py_error + (answer_record list \<times> 's)" where
  "run_eval cfg sleep chat st pairs = eval_loop cfg sleep chat st 0 pairs []"

text \<open>
  The exceptions of \<open>n\<close> calls in a row for the same question, from state \<open>st\<close>, when
  all of them fail (\<open>None\<close> when one succeeds), with the state they leave.
\<close>

fun failures :: "'s backend \<Rightarrow> 's \<Rightarrow> pystr \<Rightarrow> nat \<Rightarrow> (backend_exception list \<times> 's) option" where
  "failures chat st q 0 = Some ([], st)"
| "failures chat st q (Suc n) =
     (case chat st q of
        (Inr content, st') \<Rightarrow> None
      | (Inl exc, st') \<Rightarrow>
          (case failures chat st' q n of None \<Rightarrow> None | Some (excs, st'') \<Rightarrow> Some (exc # excs, st'')))"

text \<open>
  The strip rule as claim C4 words it, for comparison with \<open>clean_answer\<close>: only the
  first span is removed, and it ends at the first end marker behind its start marker.
  \<open>first_end\<close> is what follows that end marker.
\<close>

fun first_end :: "pystr \<Rightarrow> pystr option" where
  "first_end [] = None"
| "first_end (ch # rest) =
     (if prefix think_end (ch # rest) then Some (drop (length think_end) (ch # rest))
      else first_end rest)"

fun remove_first_span :: "pystr \<Rightarrow> pystr" where
  "remove_first_span [] = []"
| "remove_first_span (ch # rest) =
     (if prefix think_start (ch # rest)
      then (case first_end (drop (length think_start) (ch # rest)) of
              Some left \<Rightarrow> left
            | None \<Rightarrow> ch # rest)
      else ch # remove_first_span rest)"

definition strip_first_span_as_claimed :: "pystr \<Rightarrow> pystr" where
  "strip_first_span_as_claimed ans = py_strip (remove_first_span ans)"

text \<open>
  Data to run the runner on: two configurations that differ in the delay, two questions,
  and two backends.
\<close>

definition demo_config :: eval_config where
  "demo_config = \<lparr>cfg_model = ''m'', lang = ''en'', num_q = 2, max_retries = 2,
                   retry_sleep_s = 0, strip_think = False\<rparr>"

definition slow_config :: eval_config where
  "slow_config = \<lparr>cfg_model = ''m'', lang = ''en'', num_q = 2, max_retries = 2,
                   retry_sleep_s = 10000000000, strip_think = False\<rparr>"

definition demo_pairs :: "qa_pair list" where
  "demo_pairs = [\<lparr>pair_question = Some (lit ''q0''), pair_answer = Some (lit ''a0'')\<rparr>,
                 \<lparr>pair_question = Some (lit ''q1''), pair_answer = None\<rparr>]"

text \<open>
  A backend that always raises, and one whose third call is the first to answer; its
  reply is the question between a no-break space (U+00A0) and a next-line character
  (U+0085).
\<close>

definition failing_chat :: "nat backend" where
  "failing_chat n q = (Inl (BackendException (lit ''boom'')), Suc n)"


section \<open>Properties of the frontier\<close>

lemma dominated_scan_iff:
  "dominated_scan i m1 j ms \<longleftrightarrow> (\<exists>k<length ms. i \<noteq> j + k \<and> dominates (ms ! k) m1)"
proof (induction ms arbitrary: j)
  case Nil
  show ?case by simp
next
  case (Cons m2 rest)
  have "(\<exists>k<length (m2 # rest). i \<noteq> j + k \<and> dominates ((m2 # rest) ! k) m1)
        \<longleftrightarrow> (i \<noteq> j \<and> dominates m2 m1) \<or> (\<exists>k<length rest. i \<noteq> Suc j + k \<and> dominates (rest ! k) m1)"
    (is "?L \<longleftrightarrow> ?A \<or> ?B")
  proof
    assume ?L
    then obtain k where k: "k < length (m2 # rest)" "i \<noteq> j + k" "dominates ((m2 # rest) ! k) m1"
      by blast
    show "?A \<or> ?B"
    proof (cases k)
      case 0
      with k show ?thesis by simp
    next
      case (Suc k')
      with k have "k' < length rest \<and> i \<noteq> Suc j + k' \<and> dominates (rest ! k') m1" by simp
      then show ?thesis by blast
    qed
  next
    assume "?A \<or> ?B"
    then show ?L
    proof
      assume ?A
      then have "0 < length (m2 # rest) \<and> i \<noteq> j + 0 \<and> dominates ((m2 # rest) ! 0) m1" by simp
      then show ?L by blast
    next
      assume ?B
      then obtain k where "k < length rest" "i \<noteq> Suc j + k" "dominates (rest ! k) m1" by blast
      then have "Suc k < length (m2 # rest) \<and> i \<noteq> j + Suc k \<and> dominates ((m2 # rest) ! Suc k) m1"
        by simp
      then show ?L by blast
    qed
  qed
  with Cons.IH [of "Suc j"] show ?case
    by (auto simp add: dominates_def)
qed

lemma length_pareto_scan: "length (pareto_scan models i rest) = length rest"
  by (induction rest arbitrary: i) simp_all

lemma nth_pareto_scan:
  "n < length rest \<Longrightarrow>
   pareto_scan models i rest ! n = (\<not> dominated_scan (i + n) (rest ! n) 0 models)"
proof (induction rest arbitrary: i n)
  case Nil
  then show ?case by simp
next
  case (Cons m1 rest)
  show ?case
  proof (cases n)
    case 0
    then show ?thesis by simp
  next
    case (Suc n')
    with Cons.prems have "n' < length rest" by simp
    from Cons.IH [OF this, of "Suc i"] Suc show ?thesis by simp
  qed
qed

lemma length_is_pareto_optimal: "length (is_pareto_optimal ms) = length ms"
  by (simp add: is_pareto_optimal_def length_pareto_scan)

lemma is_pareto_optimal_nth:
  "i < length ms \<Longrightarrow>
   is_pareto_optimal ms ! i = (\<not> (\<exists>k<length ms. i \<noteq> k \<and> dominates (ms ! k) (ms ! i)))"
  using nth_pareto_scan [of i ms ms 0] dominated_scan_iff [of i "ms ! i" 0 ms]
  by (simp add: is_pareto_optimal_def)

text \<open>
  Claim C2. The flag list has one entry per point, and the flag of the point at
  position \<open>i\<close> is true exactly when no point at another position has strictly lower
  \<open>gpu_hours\<close> and strictly higher \<open>accuracy\<close>.
\<close>

theorem pareto_flag_iff:
  "length (is_pareto_optimal ms) = length ms \<and>
   (\<forall>i<length ms.
      is_pareto_optimal ms ! i \<longleftrightarrow>
        \<not> (\<exists>j<length ms. j \<noteq> i \<and> gpu_hours (ms ! j) < gpu_hours (ms ! i)
                \<and> accuracy (ms ! j) > accuracy (ms ! i)))"
proof (intro conjI allI impI)
  show "length (is_pareto_optimal ms) = length ms"
    by (rule length_is_pareto_optimal)
next
  fix i assume "i < length ms"
  then have "is_pareto_optimal ms ! i = (\<not> (\<exists>k<length ms. i \<noteq> k \<and> dominates (ms ! k) (ms ! i)))"
    by (rule is_pareto_optimal_nth)
  then show "is_pareto_optimal ms ! i \<longleftrightarrow>
        \<not> (\<exists>j<length ms. j \<noteq> i \<and> gpu_hours (ms ! j) < gpu_hours (ms ! i)
                \<and> accuracy (ms ! j) > accuracy (ms ! i))"
    unfolding dominates_def by metis
qed

lemma example_flags: "is_pareto_optimal example_runs = [True, False, False, True]"
  by (simp add: example_runs_def is_pareto_optimal_def point_def)

theorem pareto_flag_iff_witness:
  "1 < length example_runs \<and> \<not> is_pareto_optimal example_runs ! 1 \<and>
   (\<exists>j<length example_runs. j \<noteq> 1 \<and> gpu_hours (example_runs ! j) < gpu_hours (example_runs ! 1)
        \<and> accuracy (example_runs ! j) > accuracy (example_runs ! 1))"
proof -
  have len: "1 < length example_runs" by (simp add: example_runs_def)
  have flag: "\<not> is_pareto_optimal example_runs ! 1" by (simp add: example_flags)
  from pareto_flag_iff [of example_runs] len flag show ?thesis by blast
qed

lemma dominates_irrefl: "\<not> dominates x x"
  by (simp add: dominates_def)

lemma dominates_trans: "dominates z y \<Longrightarrow> dominates y x \<Longrightarrow> dominates z x"
  by (auto simp: dominates_def)

lemma is_pareto_optimal_map:
  "is_pareto_optimal ms = map (\<lambda>x. \<not> (\<exists>y\<in>set ms. dominates y x)) ms"
proof (rule nth_equalityI)
  show "length (is_pareto_optimal ms) = length (map (\<lambda>x. \<not> (\<exists>y\<in>set ms. dominates y x)) ms)"
    by (simp add: length_is_pareto_optimal)
next
  fix i assume "i < length (is_pareto_optimal ms)"
  then have i: "i < length ms" by (simp add: length_is_pareto_optimal)
  have "(\<exists>k<length ms. i \<noteq> k \<and> dominates (ms ! k) (ms ! i)) \<longleftrightarrow> (\<exists>y\<in>set ms. dominates y (ms ! i))"
  proof
    assume "\<exists>k<length ms. i \<noteq> k \<and> dominates (ms ! k) (ms ! i)"
    then show "\<exists>y\<in>set ms. dominates y (ms ! i)" using nth_mem by blast
  next
    assume "\<exists>y\<in>set ms. dominates y (ms ! i)"
    then obtain y where y: "y \<in> set ms" "dominates y (ms ! i)" by blast
    then obtain k where k: "k < length ms" "ms ! k = y" by (auto simp: in_set_conv_nth)
    with y have "i \<noteq> k" using dominates_irrefl by auto
    with k y show "\<exists>k<length ms. i \<noteq> k \<and> dominates (ms ! k) (ms ! i)" by blast
  qed
  with i show "is_pareto_optimal ms ! i = map (\<lambda>x. \<not> (\<exists>y\<in>set ms. dominates y x)) ms ! i"
    by (simp add: is_pareto_optimal_nth)
qed

lemma remove_at_map: "remove_at k (map f xs) = map f (remove_at k xs)"
  by (simp add: remove_at_def take_map drop_map)

lemma set_remove_at_subset: "set (remove_at k xs) \<subseteq> set xs"
  by (auto simp: remove_at_def dest: in_set_takeD in_set_dropD)

lemma in_set_remove_at:
  assumes "k < length xs" and "y \<in> set xs" and "y \<noteq> xs ! k"
  shows "y \<in> set (remove_at k xs)"
proof -
  from assms(1) have "xs = take k xs @ xs ! k # drop (Suc k) xs" by (rule id_take_nth_drop)
  then have "set xs = set (take k xs) \<union> {xs ! k} \<union> set (drop (Suc k) xs)"
    by (metis Un_insert_right list.simps(15) set_append sup_bot.right_neutral Un_assoc insert_is_Un)
  with assms(2,3) show ?thesis by (auto simp: remove_at_def)
qed

lemma dominated_after_removal:
  assumes k: "k < length ms" and w: "w \<in> set ms" "dominates w (ms ! k)"
  shows "(\<exists>y\<in>set (remove_at k ms). dominates y x) \<longleftrightarrow> (\<exists>y\<in>set ms. dominates y x)"
proof
  assume "\<exists>y\<in>set (remove_at k ms). dominates y x"
  then obtain y where "y \<in> set (remove_at k ms)" and yx: "dominates y x" ..
  with set_remove_at_subset [of k ms] have "y \<in> set ms" by (simp add: subsetD)
  with yx show "\<exists>y\<in>set ms. dominates y x" ..
next
  assume "\<exists>y\<in>set ms. dominates y x"
  then obtain y where y: "y \<in> set ms" and yx: "dominates y x" ..
  show "\<exists>y\<in>set (remove_at k ms). dominates y x"
  proof (cases "y = ms ! k")
    case False
    with k y have "y \<in> set (remove_at k ms)" by (rule in_set_remove_at)
    with yx show ?thesis ..
  next
    case True
    with w(2) yx have wx: "dominates w x" by (simp add: dominates_trans)
    have "w \<noteq> ms ! k"
    proof
      assume "w = ms ! k"
      with w(2) have "dominates (ms ! k) (ms ! k)" by simp
      then show False by (simp add: dominates_irrefl)
    qed
    with k w(1) have "w \<in> set (remove_at k ms)" by (rule in_set_remove_at)
    with wx show ?thesis ..
  qed
qed

text \<open>
  Claim C9. Deleting a point whose flag is false leaves the flags of all other points
  as they were: the flags of the shorter group are the old flags with that position
  deleted.
\<close>

theorem pareto_stable_under_removal:
  assumes k: "k < length ms" and non_optimal: "\<not> is_pareto_optimal ms ! k"
  shows "is_pareto_optimal (remove_at k ms) = remove_at k (is_pareto_optimal ms)"
proof -
  let ?ms' = "remove_at k ms"
  from k non_optimal have "\<exists>j<length ms. k \<noteq> j \<and> dominates (ms ! j) (ms ! k)"
    by (simp add: is_pareto_optimal_nth)
  then obtain j where j: "j < length ms" "dominates (ms ! j) (ms ! k)" by blast
  from j(1) have "ms ! j \<in> set ms" by (rule nth_mem)
  with k have same: "(\<exists>y\<in>set ?ms'. dominates y x) \<longleftrightarrow> (\<exists>y\<in>set ms. dominates y x)" for x
    using j(2) by (rule dominated_after_removal)
  have "is_pareto_optimal ?ms' = map (\<lambda>x. \<not> (\<exists>y\<in>set ?ms'. dominates y x)) ?ms'"
    by (rule is_pareto_optimal_map)
  also have "\<dots> = map (\<lambda>x. \<not> (\<exists>y\<in>set ms. dominates y x)) ?ms'"
    by (simp add: same)
  also have "\<dots> = remove_at k (map (\<lambda>x. \<not> (\<exists>y\<in>set ms. dominates y x)) ms)"
    by (simp add: remove_at_map)
  also have "\<dots> = remove_at k (is_pareto_optimal ms)"
    using is_pareto_optimal_map [of ms] by simp
  finally show ?thesis .
qed

theorem pareto_stable_under_removal_witness:
  "1 < length example_runs \<and> \<not> is_pareto_optimal example_runs ! 1 \<and>
   is_pareto_optimal (remove_at 1 example_runs) = [True, False, True]"
proof -
  have len: "1 < length example_runs" by (simp add: example_runs_def)
  have flag: "\<not> is_pareto_optimal example_runs ! 1" by (simp add: example_flags)
  have "remove_at 1 (is_pareto_optimal example_runs) = [True, False, True]"
    by (simp add: example_flags remove_at_def)
  with pareto_stable_under_removal [OF len flag] len flag show ?thesis by simp
qed

section \<open>Properties of the comparator\<close>

lemma cells_sum_count_pair: "cells_sum (count_pair m1 m2 t) = cells_sum t + 1"
  by (cases t) (simp add: cells_sum_def count_pair_def)

lemma cells_nonneg_count_pair: "cells_nonneg t \<Longrightarrow> cells_nonneg (count_pair m1 m2 t)"
  by (cases t) (simp add: cells_nonneg_def count_pair_def)

lemma pair_loop_eq: "pair_loop ps t out = (tally ps t, out)"
  by (induction ps t out rule: pair_loop.induct) (simp_all add: tally_def)

lemma tally_sum: "cells_sum (tally ps t) = cells_sum t + int (length ps)"
proof (induction ps arbitrary: t)
  case Nil
  show ?case by (simp add: tally_def)
next
  case (Cons p ps)
  obtain q1 q2 where p: "p = (q1, q2)" by (cases p)
  have "tally (p # ps) t = tally ps (count_pair (is_match q1) (is_match q2) t)"
    by (simp add: tally_def p)
  with Cons.IH [of "count_pair (is_match q1) (is_match q2) t"] show ?case
    by (simp add: cells_sum_count_pair)
qed

lemma tally_nonneg: "cells_nonneg t \<Longrightarrow> cells_nonneg (tally ps t)"
proof (induction ps arbitrary: t)
  case Nil
  then show ?case by (simp add: tally_def)
next
  case (Cons p ps)
  obtain q1 q2 where p: "p = (q1, q2)" by (cases p)
  have "tally (p # ps) t = tally ps (count_pair (is_match q1) (is_match q2) t)"
    by (simp add: tally_def p)
  with Cons.IH [of "count_pair (is_match q1) (is_match q2) t"] Cons.prems show ?case
    by (simp add: cells_nonneg_count_pair)
qed

lemma strict_pair_loop_eq:
  "strict_pair_loop ps t = Inr t' \<Longrightarrow> t' = tally ps t"
  by (induction ps t rule: strict_pair_loop.induct) (simp_all add: tally_def split: if_splits)

lemma table_of_cells:
  "(case t of (a, b, c, d) \<Rightarrow>
      (\<lparr>model1 = n1, model2 = n2, cell_a = a, cell_b = b, cell_c = c, cell_d = d,
        total = a + b + c + d\<rparr>, out)) = (table n1 n2 t, out)"
  by (cases t) (simp add: table_def cells_sum_def)

lemma table_of_cells_Inr:
  "(case t of (a, b, c, d) \<Rightarrow>
      Inr \<lparr>model1 = n1, model2 = n2, cell_a = a, cell_b = b, cell_c = c, cell_d = d,
        total = a + b + c + d\<rparr>) = Inr (table n1 n2 t)"
  by (cases t) (simp add: table_def cells_sum_def)

lemma calculate_mcnemar_values_eq:
  "calculate_mcnemar_values n1 r1 n2 r2 =
     (table n1 n2 (tally (zip (take (min (length r1) (length r2)) r1)
                              (take (min (length r1) (length r2)) r2)) (0, 0, 0, 0)),
      if length r1 \<noteq> length r2
      then [''warning: result count mismatch: '' @ show_nat (length r1)
              @ '' vs '' @ show_nat (length r2)]
      else [])"
proof (cases "length r1 = length r2")
  case True
  then show ?thesis
    by (simp add: calculate_mcnemar_values_def pair_loop_eq table_of_cells)
next
  case False
  then show ?thesis
    by (simp only: calculate_mcnemar_values_def Let_def if_True if_False not_False_eq_True
          prod.case pair_loop_eq table_of_cells)
qed

lemma strict_calculate_mcnemar_values_eq:
  "strict_calculate_mcnemar_values n1 r1 n2 r2 = Inr v \<Longrightarrow>
   length r1 = length r2 \<and> v = table n1 n2 (tally (zip r1 r2) (0, 0, 0, 0))"
proof -
  assume ok: "strict_calculate_mcnemar_values n1 r1 n2 r2 = Inr v"
  then have len: "length r1 = length r2"
    by (simp add: strict_calculate_mcnemar_values_def split: if_splits)
  show ?thesis
  proof (cases "strict_pair_loop (zip r1 r2) (0, 0, 0, 0)")
    case (Inl err)
    with ok len show ?thesis by (simp add: strict_calculate_mcnemar_values_def)
  next
    case (Inr t)
    then have "t = tally (zip r1 r2) (0, 0, 0, 0)" by (rule strict_pair_loop_eq)
    with ok len Inr show ?thesis
      by (simp add: strict_calculate_mcnemar_values_def table_of_cells_Inr)
  qed
qed

lemma table_sum:
  "cell_a (table n1 n2 t) + cell_b (table n1 n2 t) + cell_c (table n1 n2 t) + cell_d (table n1 n2 t)
     = cells_sum t"
  by (cases t) (simp add: table_def cells_sum_def)

lemma table_nonneg:
  "cells_nonneg t \<Longrightarrow>
   0 \<le> cell_a (table n1 n2 t) \<and> 0 \<le> cell_b (table n1 n2 t) \<and>
   0 \<le> cell_c (table n1 n2 t) \<and> 0 \<le> cell_d (table n1 n2 t)"
  by (cases t) (simp add: table_def cells_nonneg_def)

lemma total_table: "total (table n1 n2 t) = cells_sum t"
  by (simp add: table_def)

lemma cells_zero: "cells_sum (0, 0, 0, 0) = 0" "cells_nonneg (0, 0, 0, 0)"
  by (simp_all add: cells_sum_def cells_nonneg_def)

lemma length_zip_take_min:
  "length (zip (take (min (length r1) (length r2)) r1) (take (min (length r1) (length r2)) r2))
     = min (length r1) (length r2)"
  by simp

lemma counts_ok_table:
  "length ps = min len1 len2 \<Longrightarrow> counts_ok (table n1 n2 (tally ps (0, 0, 0, 0))) len1 len2"
  unfolding counts_ok_def
  using table_nonneg [OF tally_nonneg [OF cells_zero(2)], of n1 n2 ps]
  by (simp add: table_sum tally_sum cells_zero)

text \<open>
  Claim C8. The four counts that calculate\_mcnemar.py returns add up to the smaller of
  the two lengths and none is negative; the same holds for every table that
  calculate\_b\_c.py returns (it returns one only for equal lengths and matching
  \<open>question_num\<close> values).
\<close>

theorem contingency_counts_sum:
  "(cell_a (fst (calculate_mcnemar_values n1 r1 n2 r2)) + cell_b (fst (calculate_mcnemar_values n1 r1 n2 r2))
      + cell_c (fst (calculate_mcnemar_values n1 r1 n2 r2)) + cell_d (fst (calculate_mcnemar_values n1 r1 n2 r2))
      = int (min (length r1) (length r2))
    \<and> 0 \<le> cell_a (fst (calculate_mcnemar_values n1 r1 n2 r2))
    \<and> 0 \<le> cell_b (fst (calculate_mcnemar_values n1 r1 n2 r2))
    \<and> 0 \<le> cell_c (fst (calculate_mcnemar_values n1 r1 n2 r2))
    \<and> 0 \<le> cell_d (fst (calculate_mcnemar_values n1 r1 n2 r2))
    \<and> total (fst (calculate_mcnemar_values n1 r1 n2 r2)) = int (min (length r1) (length r2)))
   \<and> (\<forall>v. strict_calculate_mcnemar_values n1 r1 n2 r2 = Inr v \<longrightarrow>
          cell_a v + cell_b v + cell_c v + cell_d v = int (min (length r1) (length r2))
        \<and> 0 \<le> cell_a v \<and> 0 \<le> cell_b v \<and> 0 \<le> cell_c v \<and> 0 \<le> cell_d v
        \<and> total v = int (min (length r1) (length r2)))"
proof (intro conjI allI impI)
  let ?ps = "zip (take (min (length r1) (length r2)) r1) (take (min (length r1) (length r2)) r2)"
  have fst_eq: "fst (calculate_mcnemar_values n1 r1 n2 r2) = table n1 n2 (tally ?ps (0, 0, 0, 0))"
    by (simp only: calculate_mcnemar_values_eq fst_conv)
  have len: "length ?ps = min (length r1) (length r2)" by (rule length_zip_take_min)
  from counts_ok_table [OF len, of n1 n2]
  have ok: "counts_ok (fst (calculate_mcnemar_values n1 r1 n2 r2)) (length r1) (length r2)"
    by (simp only: fst_eq)
  from ok show "cell_a (fst (calculate_mcnemar_values n1 r1 n2 r2)) + cell_b (fst (calculate_mcnemar_values n1 r1 n2 r2))
      + cell_c (fst (calculate_mcnemar_values n1 r1 n2 r2)) + cell_d (fst (calculate_mcnemar_values n1 r1 n2 r2))
      = int (min (length r1) (length r2))" by (simp only: counts_ok_def)
  from ok show "0 \<le> cell_a (fst (calculate_mcnemar_values n1 r1 n2 r2))" by (simp only: counts_ok_def)
  from ok show "0 \<le> cell_b (fst (calculate_mcnemar_values n1 r1 n2 r2))" by (simp only: counts_ok_def)
  from ok show "0 \<le> cell_c (fst (calculate_mcnemar_values n1 r1 n2 r2))" by (simp only: counts_ok_def)
  from ok show "0 \<le> cell_d (fst (calculate_mcnemar_values n1 r1 n2 r2))" by (simp only: counts_ok_def)
  show "total (fst (calculate_mcnemar_values n1 r1 n2 r2)) = int (min (length r1) (length r2))"
    by (simp only: fst_eq total_table tally_sum cells_zero len)
next
  fix v assume "strict_calculate_mcnemar_values n1 r1 n2 r2 = Inr v"
  then have eq: "length r1 = length r2" and v: "v = table n1 n2 (tally (zip r1 r2) (0, 0, 0, 0))"
    by (simp_all add: strict_calculate_mcnemar_values_eq)
  from eq have len: "length (zip r1 r2) = min (length r1) (length r2)" by simp
  from counts_ok_table [OF len, of n1 n2] v
  have ok: "counts_ok v (length r1) (length r2)" by simp
  from ok show "cell_a v + cell_b v + cell_c v + cell_d v = int (min (length r1) (length r2))"
    by (simp only: counts_ok_def)
  from ok show "0 \<le> cell_a v" by (simp only: counts_ok_def)
  from ok show "0 \<le> cell_b v" by (simp only: counts_ok_def)
  from ok show "0 \<le> cell_c v" by (simp only: counts_ok_def)
  from ok show "0 \<le> cell_d v" by (simp only: counts_ok_def)
  show "total v = int (min (length r1) (length r2))"
    by (simp only: v total_table tally_sum cells_zero len)
qed


theorem contingency_counts_sum_witness:
  "strict_calculate_mcnemar_values ''m1'' [graded 0 ''T'', graded 1 ''F''] ''m2'' [graded 0 ''t'', graded 1 ''T'']
     = Inr \<lparr>model1 = ''m1'', model2 = ''m2'', cell_a = 1, cell_b = 0, cell_c = 1, cell_d = 0, total = 2\<rparr>
   \<and> (1::int) + 0 + 1 + 0 = int (min (length [graded 0 ''T'', graded 1 ''F'']) (length [graded 0 ''t'', graded 1 ''T'']))"
proof -
  have run: "strict_calculate_mcnemar_values ''m1'' [graded 0 ''T'', graded 1 ''F''] ''m2'' [graded 0 ''t'', graded 1 ''T'']
     = Inr \<lparr>model1 = ''m1'', model2 = ''m2'', cell_a = 1, cell_b = 0, cell_c = 1, cell_d = 0, total = 2\<rparr>"
    by code_simp
  from contingency_counts_sum [of "''m1''" "[graded 0 ''T'', graded 1 ''F'']" "''m2''" "[graded 0 ''t'', graded 1 ''T'']"] run
  show ?thesis by simp
qed

text \<open>
  Claim C1. The statistic is 0 when \<open>b + c = 0\<close> and
  \<open>(|b - c| - 1)\<^sup>2 / (b + c)\<close> otherwise; for \<open>b = c = 0\<close> it is 0, and then
  \<open>main\<close> computes the p-value 1 and reports no significance, for every \<open>cdf\<close>
  with \<open>cdf 0 = 0\<close> (as the chi-squared distribution function has).
\<close>

theorem mcnemar_statistic_formula:
  "calculate_mcnemar_statistic b c =
     (if b + c = 0 then 0 else (\<bar>real_of_int b - real_of_int c\<bar> - 1)\<^sup>2 / (real_of_int b + real_of_int c))
   \<and> (b = 0 \<and> c = 0 \<longrightarrow> calculate_mcnemar_statistic b c = 0)
   \<and> (cdf 0 = 0 \<and> cell_b v = 0 \<and> cell_c v = 0 \<longrightarrow> main_report cdf v = (0, 1, Not_significant))"
  by (simp add: calculate_mcnemar_statistic_def main_report_def p_value_of_def)

theorem mcnemar_statistic_formula_witness:
  "(\<lambda>x::real. x / (1 + x)) 0 = 0
   \<and> cell_b (fst (calculate_mcnemar_values ''m1'' [graded 0 ''T''] ''m2'' [graded 0 ''T''])) = 0
   \<and> cell_c (fst (calculate_mcnemar_values ''m1'' [graded 0 ''T''] ''m2'' [graded 0 ''T''])) = 0
   \<and> main_report (\<lambda>x. x / (1 + x)) (fst (calculate_mcnemar_values ''m1'' [graded 0 ''T''] ''m2'' [graded 0 ''T'']))
       = (0, 1, Not_significant)
   \<and> calculate_mcnemar_statistic 0 0 = 0
   \<and> calculate_mcnemar_statistic 10 2 = 49 / 12"
proof -
  have v: "fst (calculate_mcnemar_values ''m1'' [graded 0 ''T''] ''m2'' [graded 0 ''T''])
     = \<lparr>model1 = ''m1'', model2 = ''m2'', cell_a = 1, cell_b = 0, cell_c = 0, cell_d = 0, total = 1\<rparr>"
    by code_simp
  from mcnemar_statistic_formula [of 0 0 "\<lambda>x. x / (1 + x)"
      "fst (calculate_mcnemar_values ''m1'' [graded 0 ''T''] ''m2'' [graded 0 ''T''])"]
  have zero: "calculate_mcnemar_statistic 0 0 = 0
     \<and> main_report (\<lambda>x. x / (1 + x)) (fst (calculate_mcnemar_values ''m1'' [graded 0 ''T''] ''m2'' [graded 0 ''T'']))
       = (0, 1, Not_significant)"
    by (simp add: v)
  from mcnemar_statistic_formula [of 10 2 "\<lambda>x. x / (1 + x)"
      "fst (calculate_mcnemar_values ''m1'' [graded 0 ''T''] ''m2'' [graded 0 ''T''])"]
  have "calculate_mcnemar_statistic 10 2 = 49 / 12" by simp
  with zero show ?thesis by (simp add: v)
qed

text \<open>
  Claim C5, as stated, fails on calculate\_b\_c.py: lists of lengths 1 and 2 are
  rejected with \<open>ValueError\<close>.
\<close>

theorem length_mismatch_rejected_by_minimal_variant:
  "strict_calculate_mcnemar_values ''m1'' [graded 0 ''T''] ''m2'' [graded 0 ''T'', graded 1 ''T'']
     = Inl (ValueError ''result length mismatch: 1 vs 2'')"
  by code_simp

text \<open>
  Claim C5, amended. For lists of different lengths calculate\_mcnemar.py prints one
  warning line that names both lengths, and returns the table of the two lists cut to
  the shorter length (for which nothing is printed), with \<open>total\<close> that length;
  calculate\_b\_c.py raises \<open>ValueError\<close> instead.
\<close>

theorem length_mismatch_handling:
  assumes "length r1 \<noteq> length r2"
  shows "snd (calculate_mcnemar_values n1 r1 n2 r2)
           = [''warning: result count mismatch: '' @ show_nat (length r1) @ '' vs '' @ show_nat (length r2)]
       \<and> fst (calculate_mcnemar_values n1 r1 n2 r2)
           = fst (calculate_mcnemar_values n1 (take (min (length r1) (length r2)) r1)
                                           n2 (take (min (length r1) (length r2)) r2))
       \<and> snd (calculate_mcnemar_values n1 (take (min (length r1) (length r2)) r1)
                                       n2 (take (min (length r1) (length r2)) r2)) = []
       \<and> total (fst (calculate_mcnemar_values n1 r1 n2 r2)) = int (min (length r1) (length r2))
       \<and> strict_calculate_mcnemar_values n1 r1 n2 r2
           = Inl (ValueError (''result length mismatch: '' @ show_nat (length r1) @ '' vs '' @ show_nat (length r2)))"
proof (intro conjI)
  let ?m = "min (length r1) (length r2)"
  let ?ps = "zip (take ?m r1) (take ?m r2)"
  have len: "length (take ?m r1) = length (take ?m r2)" by simp
  have idem: "min (length (take ?m r1)) (length (take ?m r2)) = ?m" by simp
  have tk: "take ?m (take ?m r1) = take ?m r1" "take ?m (take ?m r2) = take ?m r2" by simp_all
  from assms show "snd (calculate_mcnemar_values n1 r1 n2 r2)
           = [''warning: result count mismatch: '' @ show_nat (length r1) @ '' vs '' @ show_nat (length r2)]"
    by (simp only: calculate_mcnemar_values_eq snd_conv if_True not_False_eq_True)
  have trunc: "calculate_mcnemar_values n1 (take ?m r1) n2 (take ?m r2)
                 = (table n1 n2 (tally ?ps (0, 0, 0, 0)), [])"
    using len by (simp only: calculate_mcnemar_values_eq [of n1 "take ?m r1" n2 "take ?m r2"] idem tk)
      simp
  show "fst (calculate_mcnemar_values n1 r1 n2 r2) = fst (calculate_mcnemar_values n1 (take ?m r1) n2 (take ?m r2))"
    by (simp only: trunc fst_conv) (simp only: calculate_mcnemar_values_eq fst_conv)
  show "snd (calculate_mcnemar_values n1 (take ?m r1) n2 (take ?m r2)) = []"
    by (simp only: trunc snd_conv)
  have "length ?ps = ?m" by (rule length_zip_take_min)
  then show "total (fst (calculate_mcnemar_values n1 r1 n2 r2)) = int ?m"
    by (simp only: calculate_mcnemar_values_eq fst_conv total_table tally_sum cells_zero)
  from assms show "strict_calculate_mcnemar_values n1 r1 n2 r2
           = Inl (ValueError (''result length mismatch: '' @ show_nat (length r1) @ '' vs '' @ show_nat (length r2)))"
    by (simp add: strict_calculate_mcnemar_values_def)
qed


theorem length_mismatch_handling_witness:
  "length [graded 0 ''T''] \<noteq> length [graded 0 ''T'', graded 1 ''F'']
   \<and> snd (calculate_mcnemar_values ''m1'' [graded 0 ''T''] ''m2'' [graded 0 ''T'', graded 1 ''F''])
       = [''warning: result count mismatch: 1 vs 2'']
   \<and> total (fst (calculate_mcnemar_values ''m1'' [graded 0 ''T''] ''m2'' [graded 0 ''T'', graded 1 ''F''])) = 1"
proof -
  have h: "length [graded 0 ''T''] \<noteq> length [graded 0 ''T'', graded 1 ''F'']" by simp
  have s: "show_nat (Suc 0) = ''1''" "show_nat (Suc (Suc 0)) = ''2''" by code_simp+
  note handled = length_mismatch_handling [OF h, of "''m1''" "''m2''"]
  from handled [THEN conjunct1] s
  have warned: "snd (calculate_mcnemar_values ''m1'' [graded 0 ''T''] ''m2'' [graded 0 ''T'', graded 1 ''F''])
       = [''warning: result count mismatch: 1 vs 2'']" by simp
  from handled [THEN conjunct2, THEN conjunct2, THEN conjunct2, THEN conjunct1]
  have "total (fst (calculate_mcnemar_values ''m1'' [graded 0 ''T''] ''m2'' [graded 0 ''T'', graded 1 ''F''])) = 1"
    by simp
  with h warned show ?thesis by (simp only: simp_thms)
qed

text \<open>
  Claim C6 on a failing input: two one-item lists whose \<open>question_num\<close> values 0 and
  1 are both present and differ. calculate\_mcnemar.py counts the pair and prints nothing.
\<close>

theorem relaxed_mismatch_is_silent:
  "calculate_mcnemar_values ''m1'' [graded 0 ''T''] ''m2'' [graded 1 ''T'']
     = (\<lparr>model1 = ''m1'', model2 = ''m2'', cell_a = 1, cell_b = 0, cell_c = 0, cell_d = 0, total = 1\<rparr>, [])"
  by code_simp

lemma equal_lengths_print_nothing:
  "length r1 = length r2 \<Longrightarrow> snd (calculate_mcnemar_values n1 r1 n2 r2) = []"
  by (simp only: calculate_mcnemar_values_eq snd_conv) simp

text \<open>
  Claim C7, as stated, fails: on two empty lists calculate\_mcnemar.py returns a
  dictionary, it does not fail.
\<close>

theorem empty_input_gives_result:
  "calculate_mcnemar_values ''m1'' [] ''m2'' []
     = (\<lparr>model1 = ''m1'', model2 = ''m2'', cell_a = 0, cell_b = 0, cell_c = 0, cell_d = 0, total = 0\<rparr>, [])"
  by code_simp

text \<open>
  Claim C7, amended. For two empty lists both variants return the table with
  \<open>a = b = c = d = total = 0\<close> and raise nothing; its statistic is 0.
\<close>

theorem empty_input_zero_table:
  "calculate_mcnemar_values n1 [] n2 [] = (zero_table n1 n2, [])
   \<and> strict_calculate_mcnemar_values n1 [] n2 [] = Inr (zero_table n1 n2)
   \<and> calculate_mcnemar_statistic (cell_b (zero_table n1 n2)) (cell_c (zero_table n1 n2)) = 0"
  by (simp add: calculate_mcnemar_values_def strict_calculate_mcnemar_values_def zero_table_def
        calculate_mcnemar_statistic_def)

section \<open>Properties of the runner\<close>

lemma attempt_step_ok:
  "chat st q = (Inr content, st') \<Longrightarrow>
   attempt_loop cfg sleep chat st q (a # later) prev = Inr (clean_answer (strip_think cfg) content, st')"
  by simp

lemma attempt_step_fail:
  "sleep (retry_sleep_s cfg) = Inr () \<Longrightarrow> chat st q = (Inl exc, st') \<Longrightarrow>
   attempt_loop cfg sleep chat st q (a # later) prev = attempt_loop cfg sleep chat st' q later (Some exc)"
  by simp

lemma attempt_loop_total:
  assumes "sleep (retry_sleep_s cfg) = Inr ()"
  shows "\<exists>ans st'. attempt_loop cfg sleep chat st q attempts prev = Inr (ans, st')"
proof (induction attempts arbitrary: st prev)
  case Nil
  show ?case by simp
next
  case (Cons a later)
  obtain r st1 where c: "chat st q = (r, st1)" by (cases "chat st q")
  show ?case
  proof (cases r)
    case (Inr content)
    with c show ?thesis by (simp only: attempt_step_ok) simp
  next
    case (Inl exc)
    with c assms have "attempt_loop cfg sleep chat st q (a # later) prev
                         = attempt_loop cfg sleep chat st1 q later (Some exc)"
      by simp
    with Cons.IH [of st1 "Some exc"] show ?thesis by simp
  qed
qed

lemma failures_Suc_Some:
  assumes "failures chat st q (Suc n) = Some (excs, st')"
  obtains exc st1 excs1 where "chat st q = (Inl exc, st1)"
    and "failures chat st1 q n = Some (excs1, st')" and "excs = exc # excs1"
proof -
  obtain r st1 where c: "chat st q = (r, st1)" by (cases "chat st q")
  show thesis
  proof (cases r)
    case (Inr content)
    with c assms show ?thesis by simp
  next
    case (Inl exc)
    show ?thesis
    proof (cases "failures chat st1 q n")
      case None
      with c Inl assms show ?thesis by simp
    next
      case (Some p)
      obtain excs1 st2 where p: "p = (excs1, st2)" by (cases p)
      with c Inl Some assms have "excs = exc # excs1" "st2 = st'" by simp_all
      with c Inl Some p that show ?thesis by simp
    qed
  qed
qed

lemma length_failures: "failures chat st q n = Some (excs, st') \<Longrightarrow> length excs = n"
proof (induction n arbitrary: st excs)
  case 0
  then show ?case by simp
next
  case (Suc n)
  from Suc.prems obtain exc st1 excs1 where "failures chat st1 q n = Some (excs1, st')"
    and "excs = exc # excs1" by (rule failures_Suc_Some)
  with Suc.IH [of st1 excs1] show ?case by simp
qed

lemma attempt_all_fail:
  assumes "sleep (retry_sleep_s cfg) = Inr ()"
  shows "failures chat st q (length attempts) = Some (excs, st') \<Longrightarrow>
         attempt_loop cfg sleep chat st q attempts prev
           = Inr (error_answer (if excs = [] then prev else Some (last excs)), st')"
proof (induction attempts arbitrary: st prev excs)
  case Nil
  then show ?case by simp
next
  case (Cons a later)
  from Cons.prems have "failures chat st q (Suc (length later)) = Some (excs, st')" by simp
  then obtain exc st1 excs1 where c: "chat st q = (Inl exc, st1)"
    and f: "failures chat st1 q (length later) = Some (excs1, st')" and e: "excs = exc # excs1"
    by (rule failures_Suc_Some)
  from assms c have "attempt_loop cfg sleep chat st q (a # later) prev
                       = attempt_loop cfg sleep chat st1 q later (Some exc)"
    by simp
  also from Cons.IH [OF f, of "Some exc"]
  have "\<dots> = Inr (error_answer (if excs1 = [] then Some exc else Some (last excs1)), st')" .
  finally show ?case using e by simp
qed


lemma eval_loop_Cons:
  "attempt_loop cfg sleep chat st (get_text (pair_question pair)) [1 .. max_retries cfg] None = Inr (ans, st1) \<Longrightarrow>
   eval_loop cfg sleep chat st idx (pair # rest) acc
     = eval_loop cfg sleep chat st1 (Suc idx) rest
         (acc @ [\<lparr>question_num = idx, question = get_text (pair_question pair), model_ans = ans,
                  correct_ans = get_text (pair_answer pair)\<rparr>])"
  by (simp add: Let_def)

lemma eval_loop_Cons_Inr:
  assumes "eval_loop cfg sleep chat st idx (pair # rest) acc = Inr (rs, st')"
  obtains ans st1 where
    "attempt_loop cfg sleep chat st (get_text (pair_question pair)) [1 .. max_retries cfg] None = Inr (ans, st1)"
    and "eval_loop cfg sleep chat st1 (Suc idx) rest
         (acc @ [\<lparr>question_num = idx, question = get_text (pair_question pair), model_ans = ans,
                  correct_ans = get_text (pair_answer pair)\<rparr>]) = Inr (rs, st')"
proof (cases "attempt_loop cfg sleep chat st (get_text (pair_question pair)) [1 .. max_retries cfg] None")
  case (Inl err)
  with assms show ?thesis by (simp add: Let_def)
next
  case (Inr p)
  obtain ans st1 where p: "p = (ans, st1)" by (cases p)
  with Inr have a: "attempt_loop cfg sleep chat st (get_text (pair_question pair)) [1 .. max_retries cfg] None = Inr (ans, st1)"
    by simp
  from assms have "eval_loop cfg sleep chat st1 (Suc idx) rest
         (acc @ [\<lparr>question_num = idx, question = get_text (pair_question pair), model_ans = ans,
                  correct_ans = get_text (pair_answer pair)\<rparr>]) = Inr (rs, st')"
    by (simp only: eval_loop_Cons [OF a])
  then show ?thesis by (rule that [OF a])
qed

lemma eval_loop_total:
  assumes "sleep (retry_sleep_s cfg) = Inr ()"
  shows "\<exists>rs st'. eval_loop cfg sleep chat st idx pairs acc = Inr (rs, st')"
proof (induction pairs arbitrary: st idx acc)
  case Nil
  show ?case by simp
next
  case (Cons pair rest)
  from attempt_loop_total [where cfg=cfg and sleep=sleep, OF assms, of chat st "get_text (pair_question pair)" "[1 .. max_retries cfg]" None]
  obtain ans st1 where
    a: "attempt_loop cfg sleep chat st (get_text (pair_question pair)) [1 .. max_retries cfg] None = Inr (ans, st1)"
    by blast
  show ?case by (simp only: eval_loop_Cons [OF a]) (rule Cons.IH)
qed

text \<open>What a finished loop has appended to \<open>acc\<close>.\<close>

lemma eval_loop_records:
  "eval_loop cfg sleep chat st idx pairs acc = Inr (rs, st') \<Longrightarrow>
   \<exists>new. rs = acc @ new \<and> length new = length pairs \<and>
     (\<forall>i<length pairs. question_num (new ! i) = idx + i
        \<and> question (new ! i) = get_text (pair_question (pairs ! i))
        \<and> correct_ans (new ! i) = get_text (pair_answer (pairs ! i)))"
proof (induction pairs arbitrary: st idx acc)
  case Nil
  then show ?case by simp
next
  case (Cons pair rest)
  let ?q = "get_text (pair_question pair)"
  from Cons.prems obtain ans st1 where
    e: "eval_loop cfg sleep chat st1 (Suc idx) rest
         (acc @ [\<lparr>question_num = idx, question = ?q, model_ans = ans,
                  correct_ans = get_text (pair_answer pair)\<rparr>]) = Inr (rs, st')"
    by (rule eval_loop_Cons_Inr)
  define r where "r = \<lparr>question_num = idx, question = ?q, model_ans = ans,
                  correct_ans = get_text (pair_answer pair)\<rparr>"
  from Cons.IH [OF e] obtain new where new: "rs = (acc @ [r]) @ new" "length new = length rest"
    and nth: "\<And>i. i < length rest \<Longrightarrow> question_num (new ! i) = Suc idx + i
        \<and> question (new ! i) = get_text (pair_question (rest ! i))
        \<and> correct_ans (new ! i) = get_text (pair_answer (rest ! i))"
    unfolding r_def by blast
  have "\<forall>i<length (pair # rest). question_num ((r # new) ! i) = idx + i
        \<and> question ((r # new) ! i) = get_text (pair_question ((pair # rest) ! i))
        \<and> correct_ans ((r # new) ! i) = get_text (pair_answer ((pair # rest) ! i))"
  proof (intro allI impI)
    fix i assume i: "i < length (pair # rest)"
    show "question_num ((r # new) ! i) = idx + i
        \<and> question ((r # new) ! i) = get_text (pair_question ((pair # rest) ! i))
        \<and> correct_ans ((r # new) ! i) = get_text (pair_answer ((pair # rest) ! i))"
    proof (cases i)
      case 0
      then show ?thesis by (simp add: r_def)
    next
      case (Suc j)
      with i have "j < length rest" by simp
      from nth [OF this] Suc show ?thesis by simp
    qed
  qed
  moreover from new have "rs = acc @ (r # new)" "length (r # new) = length (pair # rest)" by simp_all
  ultimately show ?case by blast
qed

lemma eval_loop_append:
  "eval_loop cfg sleep chat st idx xs acc = Inr (rs1, st1) \<Longrightarrow>
   eval_loop cfg sleep chat st idx (xs @ ys) acc = eval_loop cfg sleep chat st1 (idx + length xs) ys rs1"
proof (induction xs arbitrary: st idx acc)
  case Nil
  then show ?case by simp
next
  case (Cons pair rest)
  from Cons.prems obtain ans st0 where
    a: "attempt_loop cfg sleep chat st (get_text (pair_question pair)) [1 .. max_retries cfg] None = Inr (ans, st0)"
    and e: "eval_loop cfg sleep chat st0 (Suc idx) rest
         (acc @ [\<lparr>question_num = idx, question = get_text (pair_question pair), model_ans = ans,
                  correct_ans = get_text (pair_answer pair)\<rparr>]) = Inr (rs1, st1)"
    by (rule eval_loop_Cons_Inr)
  have "eval_loop cfg sleep chat st idx ((pair # rest) @ ys) acc
          = eval_loop cfg sleep chat st0 (Suc idx) (rest @ ys)
             (acc @ [\<lparr>question_num = idx, question = get_text (pair_question pair), model_ans = ans,
                  correct_ans = get_text (pair_answer pair)\<rparr>])"
    using eval_loop_Cons [OF a, of idx "rest @ ys" acc] by simp
  also have "\<dots> = eval_loop cfg sleep chat st1 (Suc idx + length rest) ys rs1"
    by (rule Cons.IH [OF e])
  finally show ?case by simp
qed

text \<open>The answer recorded for question \<open>i\<close> is what the retry loop returns for it.\<close>

lemma run_eval_answer:
  assumes run: "run_eval cfg sleep chat st pairs = Inr (rs, st')"
    and i: "i < length pairs"
    and pre: "run_eval cfg sleep chat st (take i pairs) = Inr (rs_i, st_i)"
  shows "\<exists>st1. attempt_loop cfg sleep chat st_i (get_text (pair_question (pairs ! i)))
                  [1 .. max_retries cfg] None = Inr (model_ans (rs ! i), st1)"
proof -
  let ?p = "pairs ! i"
  from i have split: "pairs = take i pairs @ ?p # drop (Suc i) pairs" by (rule id_take_nth_drop)
  from pre have pre': "eval_loop cfg sleep chat st 0 (take i pairs) [] = Inr (rs_i, st_i)"
    by (simp only: run_eval_def)
  from eval_loop_records [OF pre'] i have len: "length rs_i = i" by auto
  from eval_loop_append [OF pre', of "?p # drop (Suc i) pairs"] split
  have "eval_loop cfg sleep chat st 0 pairs [] = eval_loop cfg sleep chat st_i (0 + length (take i pairs)) (?p # drop (Suc i) pairs) rs_i"
    by simp
  with run have e: "eval_loop cfg sleep chat st_i (0 + length (take i pairs)) (?p # drop (Suc i) pairs) rs_i = Inr (rs, st')"
    by (simp only: run_eval_def)
  then obtain ans st1 where
    a: "attempt_loop cfg sleep chat st_i (get_text (pair_question ?p)) [1 .. max_retries cfg] None = Inr (ans, st1)"
    and e2: "eval_loop cfg sleep chat st1 (Suc (0 + length (take i pairs))) (drop (Suc i) pairs)
         (rs_i @ [\<lparr>question_num = 0 + length (take i pairs), question = get_text (pair_question ?p), model_ans = ans,
                  correct_ans = get_text (pair_answer ?p)\<rparr>]) = Inr (rs, st')"
    by (rule eval_loop_Cons_Inr)
  from eval_loop_records [OF e2] obtain new where
    "rs = (rs_i @ [\<lparr>question_num = 0 + length (take i pairs), question = get_text (pair_question ?p), model_ans = ans,
                  correct_ans = get_text (pair_answer ?p)\<rparr>]) @ new" by blast
  with len have "model_ans (rs ! i) = ans" by (simp add: nth_append)
  with a show ?thesis by blast
qed


lemma length_attempts: "1 \<le> n \<Longrightarrow> length [1 .. n] = nat n"
  by simp

text \<open>
  Claim C3, as stated, fails: with two attempts per question and a delay of
  \<open>10\<^sup>1\<^sup>0\<close> seconds, the first failed call makes the handler sleep, \<open>time.sleep\<close>
  raises \<open>OverflowError\<close>, and the exception leaves \<open>run_eval\<close>. No record is
  produced.
\<close>

theorem large_delay_escapes:
  "1 \<le> max_retries slow_config \<and> 0 \<le> retry_sleep_s slow_config
   \<and> run_eval slow_config time_sleep failing_chat 0 demo_pairs
       = Inl (OverflowError ''timestamp out of range for platform time_t'')"
  by code_simp

text \<open>
  Claim C3, amended. With at least one attempt per question and a delay that
  \<open>time.sleep\<close> accepts, \<open>run_eval\<close> returns for every backend and every list of
  questions: no exception leaves it. It returns one record per question, in input
  order, with \<open>question_num\<close> the position in the input. When all \<open>max_retries\<close> calls
  made for question \<open>i\<close> raise (from the state the backend has after the questions before
  it), the recorded answer is \<open>ERROR: \<close> followed by the text of the last exception.
\<close>

theorem run_eval_one_record_per_question:
  assumes retries: "1 \<le> max_retries cfg" and delay: "sleep (retry_sleep_s cfg) = Inr ()"
  shows "\<exists>rs st'. run_eval cfg sleep chat st pairs = Inr (rs, st') \<and> length rs = length pairs \<and>
     (\<forall>i<length pairs.
        question_num (rs ! i) = i
      \<and> question (rs ! i) = get_text (pair_question (pairs ! i))
      \<and> correct_ans (rs ! i) = get_text (pair_answer (pairs ! i))
      \<and> (\<forall>rs_i st_i excs st_i'.
            run_eval cfg sleep chat st (take i pairs) = Inr (rs_i, st_i)
          \<and> failures chat st_i (question (rs ! i)) (nat (max_retries cfg)) = Some (excs, st_i')
          \<longrightarrow> model_ans (rs ! i) = lit ''ERROR: '' @ exc_text (last excs)))"
proof -
  from eval_loop_total [where cfg=cfg and sleep=sleep, OF delay, of chat st 0 pairs "[]"]
  obtain rs st' where run: "run_eval cfg sleep chat st pairs = Inr (rs, st')"
    unfolding run_eval_def by blast
  then have e: "eval_loop cfg sleep chat st 0 pairs [] = Inr (rs, st')" by (simp only: run_eval_def)
  from eval_loop_records [OF e] have len: "length rs = length pairs"
    and fields: "\<And>i. i < length pairs \<Longrightarrow> question_num (rs ! i) = i
        \<and> question (rs ! i) = get_text (pair_question (pairs ! i))
        \<and> correct_ans (rs ! i) = get_text (pair_answer (pairs ! i))"
    by auto
  have sentinel: "model_ans (rs ! i) = lit ''ERROR: '' @ exc_text (last excs)"
    if i: "i < length pairs"
      and pre: "run_eval cfg sleep chat st (take i pairs) = Inr (rs_i, st_i)"
      and fail: "failures chat st_i (question (rs ! i)) (nat (max_retries cfg)) = Some (excs, st_i')"
    for i rs_i st_i excs st_i'
  proof -
    let ?q = "get_text (pair_question (pairs ! i))"
    from fields [OF i] have q: "question (rs ! i) = ?q" by simp
    from run_eval_answer [OF run i pre] obtain st1 where
      a: "attempt_loop cfg sleep chat st_i ?q [1 .. max_retries cfg] None = Inr (model_ans (rs ! i), st1)"
      by blast
    from fail q retries have f: "failures chat st_i ?q (length [1 .. max_retries cfg]) = Some (excs, st_i')"
      by (simp only: length_attempts)
    from length_failures [OF f] retries have "excs \<noteq> []" by auto
    with attempt_all_fail [where cfg=cfg and sleep=sleep, OF delay f, of None] a
    show ?thesis by (simp add: error_answer_def)
  qed
  from run len fields sentinel show ?thesis by blast
qed

theorem run_eval_one_record_per_question_witness:
  "1 \<le> max_retries demo_config \<and> time_sleep (retry_sleep_s demo_config) = Inr ()
   \<and> run_eval demo_config time_sleep failing_chat 0 demo_pairs
       = Inr ([\<lparr>question_num = 0, question = lit ''q0'', model_ans = lit ''ERROR: boom'',
                 correct_ans = lit ''a0''\<rparr>,
               \<lparr>question_num = 1, question = lit ''q1'', model_ans = lit ''ERROR: boom'',
                 correct_ans = []\<rparr>], 4)
   \<and> failures failing_chat 2 (lit ''q1'') (nat (max_retries demo_config))
       = Some ([BackendException (lit ''boom''), BackendException (lit ''boom'')], 4)
   \<and> (\<exists>rs st'. run_eval demo_config time_sleep failing_chat 0 demo_pairs = Inr (rs, st')
         \<and> length rs = length demo_pairs)"
proof -
  have h1: "1 \<le> max_retries demo_config" by (simp add: demo_config_def)
  have h2: "time_sleep (retry_sleep_s demo_config) = Inr ()" by (simp add: demo_config_def time_sleep_def)
  have run: "run_eval demo_config time_sleep failing_chat 0 demo_pairs
       = Inr ([\<lparr>question_num = 0, question = lit ''q0'', model_ans = lit ''ERROR: boom'',
                 correct_ans = lit ''a0''\<rparr>,
               \<lparr>question_num = 1, question = lit ''q1'', model_ans = lit ''ERROR: boom'',
                 correct_ans = []\<rparr>], 4)"
    by code_simp
  have f: "failures failing_chat 2 (lit ''q1'') (nat (max_retries demo_config))
       = Some ([BackendException (lit ''boom''), BackendException (lit ''boom'')], 4)"
    by code_simp
  from run_eval_one_record_per_question [where cfg=demo_config and sleep=time_sleep, OF h1 h2, of failing_chat 0 demo_pairs]
  have "\<exists>rs st'. run_eval demo_config time_sleep failing_chat 0 demo_pairs = Inr (rs, st')
          \<and> length rs = length demo_pairs"
    by blast
  with h1 h2 run f show ?thesis by (simp only: simp_thms)
qed

lemma zero_retries_sentinel:
  "max_retries cfg \<le> 0 \<Longrightarrow>
   attempt_loop cfg sleep chat st q [1 .. max_retries cfg] None = Inr (lit ''ERROR'', st)"
  by (simp add: error_answer_def)





section \<open>Properties of the reasoning-strip rule\<close>

lemma think_end_not_Nil: "think_end \<noteq> []"
  by (simp add: think_end_def lit_def)

lemma think_end_codes: "think_end = [60, 47, 116, 104, 105, 110, 107, 62]"
  by code_simp

lemma think_start_codes: "think_start = [60, 116, 104, 105, 110, 107, 62]"
  by code_simp

lemma match_tail_None_iff: "match_tail s = None \<longleftrightarrow> \<not> sublist think_end s"
proof (induction s)
  case Nil
  show ?case by (simp add: think_end_not_Nil)
next
  case (Cons ch rest)
  have "match_tail (ch # rest) = None \<longleftrightarrow> match_tail rest = None \<and> \<not> prefix think_end (ch # rest)"
    by (cases "match_tail rest") simp_all
  with Cons show ?case by (simp only: sublist_Cons_right) blast
qed

lemma match_tail_behind_end:
  "match_tail (think_end @ post) =
     (case match_tail post of Some left \<Rightarrow> Some left | None \<Rightarrow> Some (skip_newline post))"
  by (simp add: think_end_codes split: option.splits)

lemma match_tail_last_end:
  assumes "\<not> sublist think_end post"
  shows "match_tail (mid @ think_end @ post) = Some (skip_newline post)"
proof (induction mid)
  case Nil
  from assms have "match_tail post = None" by (simp add: match_tail_None_iff)
  then show ?case by (simp add: match_tail_behind_end)
next
  case (Cons ch mid)
  then show ?case by simp
qed

text \<open>
  Claim C4 on a failing input, a reply with two spans and answer text between them and
  behind them. The runner records only what follows the second span: the star has taken
  everything up to the last end marker, the text \<open>X\<close> outside the spans included.
  Removing the first span alone, ended at the first end marker, keeps \<open>X\<close>.
\<close>

theorem strip_removes_text_between_spans:
  "clean_answer True (lit ''<think>a</think>X<think>b</think>Y'') = lit ''Y''
   \<and> strip_first_span_as_claimed (lit ''<think>a</think>X<think>b</think>Y'')
       = lit ''X<think>b</think>Y''
   \<and> clean_answer True (lit ''<think>a</think>X<think>b</think>Y'')
       \<noteq> strip_first_span_as_claimed (lit ''<think>a</think>X<think>b</think>Y'')"
  by code_simp

lemma not_sublist_drop: "\<not> sublist xs ys \<Longrightarrow> \<not> sublist xs (drop n ys)"
  using sublist_drop [of n ys] sublist_order.order.trans [of xs "drop n ys" ys] by blast

lemma not_sublist_skip_newline:
  assumes "\<not> sublist think_end post"
  shows "\<not> sublist think_end (skip_newline post)"
proof (cases post)
  case Nil
  with assms show ?thesis by (simp add: skip_newline_def)
next
  case (Cons ch rest)
  from assms Cons have "\<not> sublist think_end rest" by (simp add: sublist_Cons_right)
  with assms Cons show ?thesis by (simp add: skip_newline_def)
qed

lemma think_match_no_end: "\<not> sublist think_end s \<Longrightarrow> think_match s = None"
proof -
  assume "\<not> sublist think_end s"
  then have "\<not> sublist think_end (drop (length think_start) s)" by (rule not_sublist_drop)
  then have "match_tail (drop (length think_start) s) = None" by (simp add: match_tail_None_iff)
  then show ?thesis by (simp add: think_match_def)
qed

lemma re_sub_think_no_end: "\<not> sublist think_end s \<Longrightarrow> re_sub_think s = s"
proof (induction s)
  case Nil
  show ?case by simp
next
  case (Cons ch rest)
  from Cons.prems have "think_match (ch # rest) = None" by (rule think_match_no_end)
  moreover from Cons.prems have "\<not> sublist think_end rest" by (simp add: sublist_Cons_right)
  ultimately show ?case using Cons.IH by simp
qed

lemma think_start_inner: "0 < n \<Longrightarrow> n < 7 \<Longrightarrow> think_start ! n \<noteq> 60"
proof -
  assume "0 < n" "n < 7"
  then have "n = 1 \<or> n = 2 \<or> n = 3 \<or> n = 4 \<or> n = 5 \<or> n = 6" by arith
  then show ?thesis by (auto simp: think_start_codes)
qed

text \<open>A start marker cannot begin inside the text before another and reach into it.\<close>

lemma no_straddle:
  assumes "prefix think_start (u @ think_start @ r)"
  shows "u = [] \<or> prefix think_start u"
proof (cases "u = [] \<or> 7 \<le> length u")
  case True
  then show ?thesis
  proof
    assume "u = []" then show ?thesis by simp
  next
    assume "7 \<le> length u"
    from assms have "prefix think_start u \<or> (\<exists>us. think_start = u @ us \<and> prefix us (think_start @ r))"
      by (simp only: prefix_append)
    then have "prefix think_start u"
    proof
      assume "prefix think_start u" then show ?thesis .
    next
      assume "\<exists>us. think_start = u @ us \<and> prefix us (think_start @ r)"
      then obtain us where us: "think_start = u @ us" by blast
      then have "length think_start = length u + length us" by (metis length_append)
      with \<open>7 \<le> length u\<close> length_think_start have "length us = 0" by arith
      then have "us = []" by simp
      with us show ?thesis by simp
    qed
    then show ?thesis by simp
  qed
next
  case False
  then have n: "0 < length u" "length u < 7" by auto
  from assms have "take 7 (u @ think_start @ r) = think_start"
    by (metis append_eq_conv_conj length_think_start prefix_def)
  then have "think_start ! length u = (u @ think_start @ r) ! length u"
    using n by (metis nth_take)
  also have "\<dots> = think_start ! 0"
    by (simp add: nth_append think_start_codes)
  also have "\<dots> = 60" by (simp add: think_start_codes)
  finally show ?thesis using think_start_inner [OF n] by simp
qed


lemma not_prefix_start:
  assumes "\<not> sublist think_start (ch # pre)"
  shows "\<not> prefix think_start ((ch # pre) @ think_start @ r)"
proof
  assume "prefix think_start ((ch # pre) @ think_start @ r)"
  then have "ch # pre = [] \<or> prefix think_start (ch # pre)" by (rule no_straddle)
  then have "prefix think_start (ch # pre)" by simp
  then have "sublist think_start (ch # pre)" by (rule prefix_imp_sublist)
  with assms show False by simp
qed

lemma re_sub_think_before_start:
  assumes m: "think_match (think_start @ r) = Some left"
  shows "\<not> sublist think_start pre \<Longrightarrow>
         re_sub_think (pre @ think_start @ r) = pre @ re_sub_think left"
proof (induction pre)
  case Nil
  obtain c cs where c: "think_start = c # cs" by (cases think_start) (simp_all add: think_start_codes)
  from m have "think_match (c # cs @ r) = Some left" by (simp add: c)
  then have "re_sub_think (c # cs @ r) = re_sub_think left" by simp
  then show ?case by (simp add: c)
next
  case (Cons ch pre)
  from Cons.prems have "\<not> prefix think_start ((ch # pre) @ think_start @ r)"
    by (rule not_prefix_start)
  then have "think_match (ch # pre @ think_start @ r) = None" by (simp add: think_match_def)
  moreover from Cons.prems have "\<not> sublist think_start pre" by (simp add: sublist_Cons_right)
  ultimately show ?case using Cons.IH by simp
qed

text \<open>
  What the substitution does in general: everything from the first start marker to the
  last end marker goes, with one line feed behind it.
\<close>

lemma re_sub_think_greedy:
  assumes pre: "\<not> sublist think_start pre" and post: "\<not> sublist think_end post"
  shows "re_sub_think (pre @ think_start @ mid @ think_end @ post) = pre @ skip_newline post"
proof -
  have "think_match (think_start @ mid @ think_end @ post) = match_tail (mid @ think_end @ post)"
    by (simp add: think_match_def)
  also from post have "\<dots> = Some (skip_newline post)" by (rule match_tail_last_end)
  finally have "re_sub_think (pre @ think_start @ mid @ think_end @ post)
                  = pre @ re_sub_think (skip_newline post)"
    using pre by (rule re_sub_think_before_start)
  also from post have "re_sub_think (skip_newline post) = skip_newline post"
    by (intro re_sub_think_no_end not_sublist_skip_newline)
  finally show ?thesis .
qed

lemma re_sub_think_no_span:
  "\<not> (\<exists>pre mid post. s = pre @ think_start @ mid @ think_end @ post) \<Longrightarrow> re_sub_think s = s"
proof (induction s)
  case Nil
  show ?case by simp
next
  case (Cons ch rest)
  have "think_match (ch # rest) = None"
  proof (rule ccontr)
    assume "think_match (ch # rest) \<noteq> None"
    then have p: "prefix think_start (ch # rest)"
      and t: "match_tail (drop (length think_start) (ch # rest)) \<noteq> None"
      by (simp_all add: think_match_def split: if_splits)
    from p have eq: "ch # rest = think_start @ drop (length think_start) (ch # rest)"
      by (metis append_eq_conv_conj prefix_def)
    from t have "sublist think_end (drop (length think_start) (ch # rest))"
      by (simp add: match_tail_None_iff)
    then obtain mid post where "drop (length think_start) (ch # rest) = mid @ think_end @ post"
      by (auto simp: sublist_def)
    with eq have "ch # rest = [] @ think_start @ mid @ think_end @ post" by simp
    with Cons.prems show False by blast
  qed
  moreover have "\<not> (\<exists>pre mid post. rest = pre @ think_start @ mid @ think_end @ post)"
  proof
    assume "\<exists>pre mid post. rest = pre @ think_start @ mid @ think_end @ post"
    then obtain pre mid post where "rest = pre @ think_start @ mid @ think_end @ post" by blast
    then have "ch # rest = (ch # pre) @ think_start @ mid @ think_end @ post" by simp
    with Cons.prems show False by blast
  qed
  ultimately show ?case using Cons.IH by simp
qed

end
